theory Spec2Isabelle
  imports Main "HOL-Library.Word"
begin

section \<open>Machine types and faults\<close>

text \<open>
  The kernel works on \<open>int16_t\<close> samples and an \<open>int32_t\<close> accumulator. The length
  \<open>n\<close> is a C \<open>int\<close> (32 bits, signed). \<open>size_t\<close> is 64 bits wide: the file reads
  the cycle counter into a \<open>uint64_t\<close> with a single \<open>rdcycle\<close>, which is the RV64 form.

  Undefined behaviour of C is a value of the model: an access outside an array and a signed
  overflow of \<open>int32_t\<close> arithmetic are the two faults.
\<close>

type_synonym int16_t = "16 word"
type_synonym int32_t = "32 word"
type_synonym c_int = "32 word"
type_synonym size_t = "64 word"

datatype fault = OutOfBounds | SignedOverflow

definition add_i32 :: "int32_t \<Rightarrow> int32_t \<Rightarrow> fault + int32_t" where
  "add_i32 x y =
     (if - (2 ^ 31) \<le> sint x + sint y \<and> sint x + sint y < 2 ^ 31
      then Inr (x + y) else Inl SignedOverflow)"

definition sub_i32 :: "int32_t \<Rightarrow> int32_t \<Rightarrow> fault + int32_t" where
  "sub_i32 x y =
     (if - (2 ^ 31) \<le> sint x - sint y \<and> sint x - sint y < 2 ^ 31
      then Inr (x - y) else Inl SignedOverflow)"

definition mul_i32 :: "int32_t \<Rightarrow> int32_t \<Rightarrow> fault + int32_t" where
  "mul_i32 x y =
     (if - (2 ^ 31) \<le> sint x * sint y \<and> sint x * sint y < 2 ^ 31
      then Inr (x * y) else Inl SignedOverflow)"

definition neg_i32 :: "int32_t \<Rightarrow> fault + int32_t" where
  "neg_i32 x = (if - sint x < 2 ^ 31 then Inr (- x) else Inl SignedOverflow)"

section \<open>Memory\<close>

text \<open>
  Memory is a collection of blocks (the objects that \<open>aligned_alloc\<close> returns), each an
  array of samples. A pointer is a block and an element offset into it, so two pointers
  may alias, exactly or shifted. The state also keeps the log of the element stores done
  so far, in order: it is what "written exactly once" is stated on.
\<close>

record ptr =
  blk :: nat
  off :: nat

record state =
  heap :: "nat \<Rightarrow> int16_t list"
  writes :: "(nat \<times> nat) list"

text \<open>\<open>overwrite m k xs\<close>: the array \<open>m\<close> with the elements from index \<open>k\<close> on replaced by \<open>xs\<close>.\<close>

definition overwrite :: "'a list \<Rightarrow> nat \<Rightarrow> 'a list \<Rightarrow> 'a list" where
  "overwrite m k xs = take k m @ xs @ drop (k + length xs) m"

definition ptr_add :: "ptr \<Rightarrow> nat \<Rightarrow> ptr" where
  "ptr_add p i = p\<lparr>off := off p + i\<rparr>"

definition load16 :: "state \<Rightarrow> ptr \<Rightarrow> nat \<Rightarrow> fault + int16_t" where
  "load16 s p i =
     (if off p + i < length (heap s (blk p))
      then Inr (heap s (blk p) ! (off p + i)) else Inl OutOfBounds)"

definition store16 :: "state \<Rightarrow> ptr \<Rightarrow> nat \<Rightarrow> int16_t \<Rightarrow> fault + state" where
  "store16 s p i v =
     (if off p + i < length (heap s (blk p))
      then Inr (s\<lparr>heap := (heap s)(blk p := (heap s (blk p))[off p + i := v]),
                  writes := writes s @ [(blk p, off p + i)]\<rparr>)
      else Inl OutOfBounds)"

section \<open>Scalar reference\<close>

definition sat_q15_scalar :: "int32_t \<Rightarrow> int16_t" where
  "sat_q15_scalar v =
     (if 32767 < sint v then 32767
      else if sint v < - 32768 then - 32768
      else scast v)"

text \<open>One iteration of the loop of \<open>q15_axpy_ref\<close>, at index \<open>i\<close>.\<close>

definition q15_axpy_ref_body ::
  "ptr \<Rightarrow> ptr \<Rightarrow> ptr \<Rightarrow> int16_t \<Rightarrow> nat \<Rightarrow> state \<Rightarrow> fault + state" where
  "q15_axpy_ref_body a b y alpha i s =
     (case load16 s a i of Inl e \<Rightarrow> Inl e | Inr ai \<Rightarrow>
      case load16 s b i of Inl e \<Rightarrow> Inl e | Inr bi \<Rightarrow>
      case mul_i32 (scast alpha) (scast bi) of Inl e \<Rightarrow> Inl e | Inr p \<Rightarrow>
      case add_i32 (scast ai) p of Inl e \<Rightarrow> Inl e | Inr acc \<Rightarrow>
      store16 s y i (sat_q15_scalar acc))"

text \<open>
  The loop \<open>for (int i = 0; i < n; ++i)\<close>. The counter starts at 0 and stays below
  \<open>n \<le> INT_MAX\<close>, so \<open>++i\<close> cannot overflow and the counter is a natural number; a
  negative \<open>n\<close> runs no iteration.
\<close>

function ref_loop ::
  "ptr \<Rightarrow> ptr \<Rightarrow> ptr \<Rightarrow> int16_t \<Rightarrow> c_int \<Rightarrow> nat \<Rightarrow> state \<Rightarrow> fault + state" where
  "ref_loop a b y alpha n i s =
     (if int i < sint n
      then (case q15_axpy_ref_body a b y alpha i s of
              Inl e \<Rightarrow> Inl e
            | Inr s' \<Rightarrow> ref_loop a b y alpha n (Suc i) s')
      else Inr s)"
  by pat_completeness auto
termination
  by (relation "measure (\<lambda>(a, b, y, alpha, n, i, s). nat (sint n) - i)") auto

definition q15_axpy_ref ::
  "ptr \<Rightarrow> ptr \<Rightarrow> ptr \<Rightarrow> c_int \<Rightarrow> int16_t \<Rightarrow> state \<Rightarrow> fault + state" where
  "q15_axpy_ref a b y n alpha s = ref_loop a b y alpha n 0 s"

section \<open>The vector target\<close>

text \<open>
  What the build and the hardware fix: whether the RVV v1.0 intrinsics are there (the
  \<open>#if\<close> of \<open>q15_axpy_rvv\<close>), the answer of \<open>vsetvl_e16m1\<close> to an application vector
  length, and the fixed-point rounding mode \<open>vxrm\<close> that \<open>vnclip\<close> reads.
\<close>

datatype rounding = RNU | RNE | RDN | ROD

record target =
  rvv_intrinsics :: bool
  vsetvl_e16m1 :: "size_t \<Rightarrow> size_t"
  vxrm :: rounding

text \<open>
  A vector value is the list of its active lanes. Each intrinsic works on the first
  \<open>vl\<close> lanes; the code never looks at a tail lane.
\<close>

definition vle16_v_i16m1 :: "state \<Rightarrow> ptr \<Rightarrow> size_t \<Rightarrow> fault + int16_t list" where
  "vle16_v_i16m1 s p vl =
     (if off p + unat vl \<le> length (heap s (blk p))
      then Inr (take (unat vl) (drop (off p) (heap s (blk p))))
      else Inl OutOfBounds)"

definition vse16_v_i16m1 :: "state \<Rightarrow> ptr \<Rightarrow> int16_t list \<Rightarrow> size_t \<Rightarrow> fault + state" where
  "vse16_v_i16m1 s p v vl =
     (let lanes = take (unat vl) v; m = heap s (blk p) in
      if off p + length lanes \<le> length m
      then Inr (s\<lparr>heap := (heap s)(blk p := overwrite m (off p) lanes),
                  writes := writes s @ map (\<lambda>j. (blk p, off p + j)) [0..<length lanes]\<rparr>)
      else Inl OutOfBounds)"

text \<open>
  The arithmetic of one lane: the widening signed multiply and add (the 16-bit operands
  sign-extended, the result 32 bits wide and wrapping), and the signed minimum and maximum.
\<close>

definition vwmul_lane :: "int16_t \<Rightarrow> int16_t \<Rightarrow> int32_t" where
  "vwmul_lane e x = scast e * scast x"

definition vwadd_lane :: "int16_t \<Rightarrow> int16_t \<Rightarrow> int32_t" where
  "vwadd_lane e x = scast e + scast x"

definition vmin_lane :: "int32_t \<Rightarrow> int32_t \<Rightarrow> int32_t" where
  "vmin_lane e x = (if sint e \<le> sint x then e else x)"

definition vmax_lane :: "int32_t \<Rightarrow> int32_t \<Rightarrow> int32_t" where
  "vmax_lane e x = (if sint x \<le> sint e then e else x)"

definition vwmul_vx_i32m2 :: "int16_t list \<Rightarrow> int16_t \<Rightarrow> size_t \<Rightarrow> int32_t list" where
  "vwmul_vx_i32m2 v x vl = map (\<lambda>e. vwmul_lane e x) (take (unat vl) v)"

definition vwadd_vx_i32m2 :: "int16_t list \<Rightarrow> int16_t \<Rightarrow> size_t \<Rightarrow> int32_t list" where
  "vwadd_vx_i32m2 v x vl = map (\<lambda>e. vwadd_lane e x) (take (unat vl) v)"

definition vadd_vv_i32m2 :: "int32_t list \<Rightarrow> int32_t list \<Rightarrow> size_t \<Rightarrow> int32_t list" where
  "vadd_vv_i32m2 v w vl = map2 (\<lambda>e f. e + f) (take (unat vl) v) (take (unat vl) w)"

definition vmin_vx_i32m2 :: "int32_t list \<Rightarrow> int32_t \<Rightarrow> size_t \<Rightarrow> int32_t list" where
  "vmin_vx_i32m2 v x vl = map (\<lambda>e. vmin_lane e x) (take (unat vl) v)"

definition vmax_vx_i32m2 :: "int32_t list \<Rightarrow> int32_t \<Rightarrow> size_t \<Rightarrow> int32_t list" where
  "vmax_vx_i32m2 v x vl = map (\<lambda>e. vmax_lane e x) (take (unat vl) v)"

text \<open>
  \<open>vnclip\<close>: shift right by the low five bits of the shift operand, add the rounding
  increment that \<open>vxrm\<close> selects from the bits shifted out, saturate to 16 bits.
\<close>

definition round_incr :: "rounding \<Rightarrow> int \<Rightarrow> nat \<Rightarrow> int" where
  "round_incr rm v d =
     (if d = 0 then 0
      else case rm of
        RNU \<Rightarrow> of_bool (bit v (d - 1))
      | RNE \<Rightarrow> of_bool (bit v (d - 1) \<and> (take_bit (d - 1) v \<noteq> 0 \<or> bit v d))
      | RDN \<Rightarrow> 0
      | ROD \<Rightarrow> of_bool (\<not> bit v d \<and> take_bit d v \<noteq> 0))"

definition vnclip_lane :: "rounding \<Rightarrow> int32_t \<Rightarrow> size_t \<Rightarrow> int16_t" where
  "vnclip_lane rm e shift =
     (let d = unat shift mod 32;
          r = sint e div 2 ^ d + round_incr rm (sint e) d
      in if 32767 < r then 32767 else if r < - 32768 then - 32768 else word_of_int r)"

definition vnclip_wx_i16m1 :: "rounding \<Rightarrow> int32_t list \<Rightarrow> size_t \<Rightarrow> size_t \<Rightarrow> int16_t list" where
  "vnclip_wx_i16m1 rm v shift vl = map (\<lambda>e. vnclip_lane rm e shift) (take (unat vl) v)"

section \<open>Vector implementation\<close>

text \<open>
  One iteration of the \<open>while\<close> loop of \<open>q15_axpy_rvv\<close> at cursor \<open>i\<close>: the new cursor
  \<open>i + vl\<close> (\<open>size_t\<close> arithmetic wraps) and the state after the store.
\<close>

definition q15_axpy_rvv_body ::
  "target \<Rightarrow> ptr \<Rightarrow> ptr \<Rightarrow> ptr \<Rightarrow> c_int \<Rightarrow> int16_t \<Rightarrow> size_t \<Rightarrow> state \<Rightarrow> fault + size_t \<times> state" where
  "q15_axpy_rvv_body t a b y n alpha i s =
     (let vl = vsetvl_e16m1 t (scast n - i) in
      case vle16_v_i16m1 s (ptr_add a (unat i)) vl of Inl e \<Rightarrow> Inl e | Inr va \<Rightarrow>
      case vle16_v_i16m1 s (ptr_add b (unat i)) vl of Inl e \<Rightarrow> Inl e | Inr vb \<Rightarrow>
      let vprod = vwmul_vx_i32m2 vb alpha vl;
          va32 = vwadd_vx_i32m2 va 0 vl;
          vacc = vadd_vv_i32m2 va32 vprod vl;
          vacc = vmin_vx_i32m2 vacc 32767 vl;
          vacc = vmax_vx_i32m2 vacc (- 32768) vl;
          vy = vnclip_wx_i16m1 (vxrm t) vacc 0 vl
      in case vse16_v_i16m1 s (ptr_add y (unat i)) vy vl of
           Inl e \<Rightarrow> Inl e
         | Inr s' \<Rightarrow> Inr (i + vl, s'))"

text \<open>
  The loop \<open>while (i < (size_t) n)\<close>. Nothing in the code bounds \<open>vl\<close> from below, so the
  loop may run forever: not returning is \<open>None\<close>. The argument \<open>k\<close> counts the iterations
  done and is returned with the final state.
\<close>

partial_function (option) rvv_loop ::
  "target \<Rightarrow> ptr \<Rightarrow> ptr \<Rightarrow> ptr \<Rightarrow> c_int \<Rightarrow> int16_t \<Rightarrow> size_t \<Rightarrow> nat \<Rightarrow> state
     \<Rightarrow> (fault + state \<times> nat) option" where
  "rvv_loop t a b y n alpha i k s =
     (if i < scast n
      then (case q15_axpy_rvv_body t a b y n alpha i s of
              Inl e \<Rightarrow> Some (Inl e)
            | Inr (i', s') \<Rightarrow> rvv_loop t a b y n alpha i' (Suc k) s')
      else Some (Inr (s, k)))"

definition q15_axpy_rvv ::
  "target \<Rightarrow> ptr \<Rightarrow> ptr \<Rightarrow> ptr \<Rightarrow> c_int \<Rightarrow> int16_t \<Rightarrow> state \<Rightarrow> (fault + state) option" where
  "q15_axpy_rvv t a b y n alpha s =
     (if \<not> rvv_intrinsics t then Some (q15_axpy_ref a b y n alpha s)
      else map_option (map_sum id fst) (rvv_loop t a b y n alpha 0 0 s))"

section \<open>Verification helper\<close>

text \<open>
  One iteration of the loop of \<open>verify_equal\<close>, on the pair \<open>(ok, md)\<close> of its locals.
\<close>

definition verify_equal_body ::
  "state \<Rightarrow> ptr \<Rightarrow> ptr \<Rightarrow> nat \<Rightarrow> c_int \<times> int32_t \<Rightarrow> fault + c_int \<times> int32_t" where
  "verify_equal_body s ref test i st =
     (case st of (ok, md) \<Rightarrow>
      case load16 s ref i of Inl e \<Rightarrow> Inl e | Inr r \<Rightarrow>
      case load16 s test i of Inl e \<Rightarrow> Inl e | Inr t \<Rightarrow>
      case sub_i32 (scast r) (scast t) of Inl e \<Rightarrow> Inl e | Inr d \<Rightarrow>
      case (if sint d < 0 then neg_i32 d else Inr d) of Inl e \<Rightarrow> Inl e | Inr d \<Rightarrow>
      Inr (if d \<noteq> 0 then 0 else ok, if sint md < sint d then d else md))"

function verify_loop ::
  "state \<Rightarrow> ptr \<Rightarrow> ptr \<Rightarrow> c_int \<Rightarrow> nat \<Rightarrow> c_int \<times> int32_t \<Rightarrow> fault + c_int \<times> int32_t" where
  "verify_loop s ref test n i st =
     (if int i < sint n
      then (case verify_equal_body s ref test i st of
              Inl e \<Rightarrow> Inl e
            | Inr st' \<Rightarrow> verify_loop s ref test n (Suc i) st')
      else Inr st)"
  by pat_completeness auto
termination
  by (relation "measure (\<lambda>(s, ref, test, n, i, st). nat (sint n) - i)") auto

text \<open>
  \<open>verify_equal\<close> returns \<open>ok\<close> and stores \<open>md\<close> through \<open>max_diff\<close>, an \<open>int32_t\<close> of the
  caller that is no sample array: the model returns the pair.
\<close>

definition verify_equal :: "state \<Rightarrow> ptr \<Rightarrow> ptr \<Rightarrow> c_int \<Rightarrow> fault + c_int \<times> int32_t" where
  "verify_equal s ref test n = verify_loop s ref test n 0 (1, 0)"

section \<open>The contract\<close>

text \<open>
  The operation as the specification words it: the exact sum \<open>a[i] + alpha * b[i]\<close> on
  the integers, clamped to \<open>[-32768, 32767]\<close>, as a 16-bit sample.
\<close>

definition clamp :: "int \<Rightarrow> int \<Rightarrow> int \<Rightarrow> int" where
  "clamp v lo hi = (if hi < v then hi else if v < lo then lo else v)"

definition axpy_q15 :: "int16_t \<Rightarrow> int16_t \<Rightarrow> int16_t \<Rightarrow> int16_t" where
  "axpy_q15 ai alpha bi = word_of_int (clamp (sint ai + sint alpha * sint bi) (- 32768) 32767)"

text \<open>The first \<open>k\<close> outputs, from the inputs as they are in state \<open>s\<close>.\<close>

definition outputs :: "state \<Rightarrow> ptr \<Rightarrow> ptr \<Rightarrow> int16_t \<Rightarrow> nat \<Rightarrow> int16_t list" where
  "outputs s a b alpha k =
     map (\<lambda>j. axpy_q15 (heap s (blk a) ! (off a + j)) alpha (heap s (blk b) ! (off b + j))) [0..<k]"

text \<open>
  The state after the first \<open>k\<close> outputs are in place: \<open>y[0..k-1]\<close> holds them, and
  the log has one more store for each of these indices, in increasing order.
\<close>

definition axpy_post :: "ptr \<Rightarrow> ptr \<Rightarrow> ptr \<Rightarrow> int16_t \<Rightarrow> nat \<Rightarrow> state \<Rightarrow> state" where
  "axpy_post a b y alpha k s =
     s\<lparr>heap := (heap s)(blk y := overwrite (heap s (blk y)) (off y) (outputs s a b alpha k)),
       writes := writes s @ map (\<lambda>j. (blk y, off y + j)) [0..<k]\<rparr>"

text \<open>
  The caller's side: \<open>n \<ge> 0\<close>, the three arrays hold at least \<open>n\<close> elements, and no
  output element is stored over an input element that is still to be read. The last
  holds when \<open>y\<close> lies in another block than the input, when it starts at or before the
  input (so also when \<open>y\<close> is the input array itself), and when the input ends before
  \<open>y\<close> starts.
\<close>

definition in_bounds :: "state \<Rightarrow> ptr \<Rightarrow> nat \<Rightarrow> bool" where
  "in_bounds s p k = (off p + k \<le> length (heap s (blk p)))"

definition read_ahead :: "ptr \<Rightarrow> ptr \<Rightarrow> nat \<Rightarrow> bool" where
  "read_ahead x y k = (blk x \<noteq> blk y \<or> off y \<le> off x \<or> off x + k \<le> off y)"

definition call_ok :: "state \<Rightarrow> ptr \<Rightarrow> ptr \<Rightarrow> ptr \<Rightarrow> c_int \<Rightarrow> bool" where
  "call_ok s a b y n =
     (0 \<le> sint n \<and> in_bounds s a (nat (sint n)) \<and> in_bounds s b (nat (sint n))
      \<and> in_bounds s y (nat (sint n))
      \<and> read_ahead a y (nat (sint n)) \<and> read_ahead b y (nat (sint n)))"


text \<open>
  The contract of the chunk-size query, for remaining counts up to \<open>k\<close>: it answers a
  positive \<open>vl\<close> that is at most the count it is asked for.
\<close>

definition vsetvl_ok :: "target \<Rightarrow> nat \<Rightarrow> bool" where
  "vsetvl_ok t k =
     (\<forall>r \<in> {1..k}. 1 \<le> unat (vsetvl_e16m1 t (of_nat r)) \<and> unat (vsetvl_e16m1 t (of_nat r)) \<le> r)"

section \<open>A concrete call\<close>

text \<open>
  Three blocks of four samples: block 0 and block 1 hold the inputs, block 2 the output
  buffer. The call is on the first three elements, with gain 2.
\<close>

definition ex_state :: state where
  "ex_state = \<lparr>heap = (\<lambda>_. [])(0 := [100, 32767, - 32768, 5], 1 := [10, 32767, 32767, 6],
                                  2 := [1, 2, 3, 4]),
               writes = []\<rparr>"

definition ex_a :: ptr where "ex_a = \<lparr>blk = 0, off = 0\<rparr>"
definition ex_b :: ptr where "ex_b = \<lparr>blk = 1, off = 0\<rparr>"
definition ex_y :: ptr where "ex_y = \<lparr>blk = 2, off = 0\<rparr>"

text \<open>A vector target with eight 16-bit lanes per register (VLEN = 128).\<close>

definition ex_target :: target where
  "ex_target = \<lparr>rvv_intrinsics = True, vsetvl_e16m1 = (\<lambda>avl. if avl \<le> 8 then avl else 8), vxrm = RNU\<rparr>"

text \<open>A narrower target, two lanes per register: a call on three elements takes two chunks.\<close>

definition ex_target2 :: target where
  "ex_target2 = \<lparr>rvv_intrinsics = True, vsetvl_e16m1 = (\<lambda>avl. if avl \<le> 2 then avl else 2), vxrm = RDN\<rparr>"

section \<open>The comparison, as specified\<close>

text \<open>
  The absolute difference at one index, on the integers, and its maximum over the first
  \<open>k\<close> indices (0 when there is none).
\<close>

definition abs_diff :: "state \<Rightarrow> ptr \<Rightarrow> ptr \<Rightarrow> nat \<Rightarrow> int" where
  "abs_diff s ref test i =
     \<bar>sint (heap s (blk ref) ! (off ref + i)) - sint (heap s (blk test) ! (off test + i))\<bar>"

definition max_abs_diff :: "state \<Rightarrow> ptr \<Rightarrow> ptr \<Rightarrow> nat \<Rightarrow> int" where
  "max_abs_diff s ref test k = Max (insert 0 (abs_diff s ref test ` {..<k}))"

definition all_equal :: "state \<Rightarrow> ptr \<Rightarrow> ptr \<Rightarrow> nat \<Rightarrow> bool" where
  "all_equal s ref test k =
     (\<forall>i < k. heap s (blk ref) ! (off ref + i) = heap s (blk test) ! (off test + i))"

text \<open>The locals \<open>(ok, md)\<close> of \<open>verify_equal\<close> after \<open>k\<close> iterations.\<close>

definition verify_post :: "state \<Rightarrow> ptr \<Rightarrow> ptr \<Rightarrow> nat \<Rightarrow> c_int \<times> int32_t" where
  "verify_post s ref test k =
     (if all_equal s ref test k then 1 else 0, word_of_int (max_abs_diff s ref test k))"

section \<open>Properties\<close>

subsection \<open>Arithmetic of one element\<close>

lemma sint16_range: "- 32768 \<le> sint (x :: int16_t) \<and> sint x \<le> 32767"
  using sint_ge [of x] sint_lt [of x] by simp

lemma sint_scast_16_32: "sint (scast (x :: int16_t) :: int32_t) = sint x"
  by (simp add: sint_up_scast is_up)

lemma q15_product_bound:
  fixes x y :: int
  assumes "- 32768 \<le> x" "x \<le> 32767" "- 32768 \<le> y" "y \<le> 32767"
  shows "\<bar>x * y\<bar> \<le> 1073741824"
proof -
  have "\<bar>x\<bar> * \<bar>y\<bar> \<le> 32768 * 32768" using assms by (intro mult_mono) auto
  then show ?thesis by (simp add: abs_mult)
qed

lemma sint_prod_bound: "\<bar>sint (x :: int16_t) * sint (y :: int16_t)\<bar> \<le> 1073741824"
  using q15_product_bound [of "sint x" "sint y"] sint16_range [of x] sint16_range [of y] by blast

lemma sint_acc_bound:
  "\<bar>sint (a :: int16_t) + sint (alpha :: int16_t) * sint (b :: int16_t)\<bar> \<le> 1073774592"
  using sint_prod_bound [of alpha b] sint16_range [of a] by linarith

lemma fits_i32: "\<bar>k :: int\<bar> \<le> 1073774592 \<Longrightarrow> - (2 ^ 31) \<le> k \<and> k < 2 ^ 31"
  unfolding abs_le_iff by simp

lemma sint_wmul: "sint (scast (x :: int16_t) * scast (y :: int16_t) :: int32_t) = sint x * sint y"
proof -
  have "signed_take_bit 31 (sint x * sint y) = sint x * sint y"
    using sint_prod_bound [of x y] by (intro signed_take_bit_int_eq_self) auto
  then show ?thesis by (simp add: sint_word_mult sint_scast_16_32)
qed

lemma sint_wacc:
  "sint (scast (a :: int16_t) + scast (alpha :: int16_t) * scast (b :: int16_t) :: int32_t)
     = sint a + sint alpha * sint b"
proof -
  have "signed_take_bit 31 (sint a + sint alpha * sint b) = sint a + sint alpha * sint b"
    using sint_acc_bound [of a alpha b] by (intro signed_take_bit_int_eq_self) auto
  then show ?thesis by (simp add: sint_word_add sint_wmul sint_scast_16_32)
qed

lemma mul_i32_widened:
  "mul_i32 (scast (alpha :: int16_t)) (scast (b :: int16_t)) = Inr (scast alpha * scast b)"
proof -
  have "- (2 ^ 31) \<le> sint alpha * sint b \<and> sint alpha * sint b < 2 ^ 31"
    using sint_prod_bound [of alpha b] by (intro fits_i32) linarith
  then show ?thesis by (simp add: mul_i32_def sint_scast_16_32)
qed

lemma add_i32_widened:
  "add_i32 (scast (a :: int16_t)) (scast (alpha :: int16_t) * scast (b :: int16_t))
     = Inr (scast a + scast alpha * scast b)"
proof -
  have "- (2 ^ 31) \<le> sint a + sint alpha * sint b \<and> sint a + sint alpha * sint b < 2 ^ 31"
    using sint_acc_bound [of a alpha b] by (intro fits_i32)
  then show ?thesis by (simp add: add_i32_def sint_scast_16_32 sint_wmul)
qed

lemma sat_q15_scalar_clamp: "sat_q15_scalar v = word_of_int (clamp (sint v) (- 32768) 32767)"
  by (simp add: sat_q15_scalar_def clamp_def)

lemma sat_q15_scalar_acc:
  "sat_q15_scalar (scast a + scast alpha * scast b) = axpy_q15 a alpha b"
  by (simp add: sat_q15_scalar_clamp axpy_q15_def sint_wacc)

lemma clamp_range: "lo \<le> hi \<Longrightarrow> lo \<le> clamp v lo hi \<and> clamp v lo hi \<le> hi"
  by (simp add: clamp_def)

lemma sint_axpy_q15:
  "sint (axpy_q15 a alpha b) = clamp (sint a + sint alpha * sint b) (- 32768) 32767"
proof -
  let ?c = "clamp (sint a + sint alpha * sint b) (- 32768) 32767"
  have "- 32768 \<le> ?c \<and> ?c \<le> 32767" by (intro clamp_range) simp
  then have "signed_take_bit 15 ?c = ?c"
    by (intro signed_take_bit_int_eq_self) auto
  then show ?thesis by (simp add: axpy_q15_def sint_sbintrunc')
qed

text \<open>One lane of the vector path: widen, multiply, add, min, max, narrow.\<close>

lemma rvv_lane:
  "vnclip_lane rm
     (vmax_lane (vmin_lane (vwadd_lane a 0 + vwmul_lane b alpha) 32767) (- 32768)) 0
   = axpy_q15 a alpha b"
proof -
  have "vwadd_lane a 0 + vwmul_lane b alpha = scast a + scast alpha * scast b"
    by (simp add: vwadd_lane_def vwmul_lane_def mult.commute)
  moreover have "sint (scast a + scast alpha * scast b :: int32_t) = sint a + sint alpha * sint b"
    by (rule sint_wacc)
  ultimately show ?thesis
    by (simp add: vmin_lane_def vmax_lane_def vnclip_lane_def round_incr_def axpy_q15_def clamp_def)
qed

subsection \<open>Arrays\<close>

lemma length_overwrite: "k + length xs \<le> length m \<Longrightarrow> length (overwrite m k xs) = length m"
  by (simp add: overwrite_def)

lemma nth_overwrite:
  "k + length xs \<le> length m \<Longrightarrow> j < length m \<Longrightarrow>
   overwrite m k xs ! j = (if k \<le> j \<and> j < k + length xs then xs ! (j - k) else m ! j)"
  by (auto simp: overwrite_def nth_append)

lemma overwrite_overwrite:
  "k + length xs + length ys \<le> length m \<Longrightarrow>
   overwrite (overwrite m k xs) (k + length xs) ys = overwrite m k (xs @ ys)"
  by (simp add: overwrite_def ac_simps)

lemma overwrite_update:
  assumes "k + length xs < length m"
  shows "(overwrite m k xs)[k + length xs := v] = overwrite m k (xs @ [v])"
proof (rule nth_equalityI)
  show "length ((overwrite m k xs)[k + length xs := v]) = length (overwrite m k (xs @ [v]))"
    using assms by (simp add: length_overwrite)
next
  fix j assume "j < length ((overwrite m k xs)[k + length xs := v])"
  then have j: "j < length m" using assms by (simp add: length_overwrite)
  show "(overwrite m k xs)[k + length xs := v] ! j = overwrite m k (xs @ [v]) ! j"
    using assms j by (auto simp: nth_overwrite length_overwrite nth_list_update nth_append)
qed

lemma overwrite_Nil: "overwrite m k [] = m"
  by (simp add: overwrite_def)

subsection \<open>The state after \<open>k\<close> outputs\<close>

lemma length_outputs: "length (outputs s a b alpha k) = k"
  by (simp add: outputs_def)

lemma outputs_add:
  "outputs s a b alpha (k + l) = outputs s a b alpha k @
     map (\<lambda>j. axpy_q15 (heap s (blk a) ! (off a + j)) alpha (heap s (blk b) ! (off b + j))) [k..<k + l]"
proof -
  have "[0..<k + l] = [0..<k] @ [k..<k + l]" by (rule upt_add_eq_append) simp
  then show ?thesis by (simp add: outputs_def)
qed

lemma axpy_post_0: "axpy_post a b y alpha 0 s = s"
  by (simp add: axpy_post_def outputs_def overwrite_Nil)

lemma length_heap_post:
  "in_bounds s y k \<Longrightarrow> length (heap (axpy_post a b y alpha k s) c) = length (heap s c)"
  by (simp add: axpy_post_def in_bounds_def length_overwrite length_outputs)

text \<open>An input element that is still to be read holds its initial value.\<close>

lemma heap_post_unread:
  assumes "in_bounds s y n" "in_bounds s x n" "read_ahead x y n" "k \<le> j" "j < n" "k \<le> n"
  shows "heap (axpy_post a b y alpha k s) (blk x) ! (off x + j) = heap s (blk x) ! (off x + j)"
  using assms
  by (auto simp: axpy_post_def in_bounds_def read_ahead_def nth_overwrite length_outputs)

lemma heap_post_nth:
  assumes "in_bounds s y k" "j < length (heap s c)"
  shows "heap (axpy_post a b y alpha k s) c ! j =
     (if c = blk y \<and> off y \<le> j \<and> j < off y + k
      then axpy_q15 (heap s (blk a) ! (off a + (j - off y))) alpha (heap s (blk b) ! (off b + (j - off y)))
      else heap s c ! j)"
  using assms
  by (auto simp: axpy_post_def in_bounds_def nth_overwrite length_outputs outputs_def)

subsection \<open>The scalar loop\<close>

lemma load16_post:
  assumes "in_bounds s y n" "in_bounds s x n" "read_ahead x y n" "i < n"
  shows "load16 (axpy_post a b y alpha i s) x i = Inr (heap s (blk x) ! (off x + i))"
proof -
  have "in_bounds s y i" using assms by (simp add: in_bounds_def)
  then have "length (heap (axpy_post a b y alpha i s) (blk x)) = length (heap s (blk x))"
    by (rule length_heap_post)
  moreover have "heap (axpy_post a b y alpha i s) (blk x) ! (off x + i) = heap s (blk x) ! (off x + i)"
    using assms by (intro heap_post_unread [where n = n]) auto
  ultimately show ?thesis using assms by (simp add: load16_def in_bounds_def)
qed

lemma store16_post:
  assumes "in_bounds s y n" "i < n"
  shows "store16 (axpy_post a b y alpha i s) y i
           (axpy_q15 (heap s (blk a) ! (off a + i)) alpha (heap s (blk b) ! (off b + i)))
         = Inr (axpy_post a b y alpha (Suc i) s)"
proof -
  have "off y + i < length (heap s (blk y))" using assms by (simp add: in_bounds_def)
  then show ?thesis
    using overwrite_update [of "off y" "outputs s a b alpha i" "heap s (blk y)"]
      outputs_add [of s a b alpha i 1]
    by (simp add: store16_def axpy_post_def length_overwrite length_outputs)
qed

lemma ref_body_post:
  assumes "in_bounds s y n" "in_bounds s a n" "in_bounds s b n"
    "read_ahead a y n" "read_ahead b y n" "i < n"
  shows "q15_axpy_ref_body a b y alpha i (axpy_post a b y alpha i s)
           = Inr (axpy_post a b y alpha (Suc i) s)"
  using assms
  by (simp add: q15_axpy_ref_body_def load16_post [where n = n] mul_i32_widened add_i32_widened
      sat_q15_scalar_acc store16_post [where n = n])

lemma ref_loop_post:
  assumes "in_bounds s y (nat (sint n))" "in_bounds s a (nat (sint n))" "in_bounds s b (nat (sint n))"
    "read_ahead a y (nat (sint n))" "read_ahead b y (nat (sint n))" "i \<le> nat (sint n)"
  shows "ref_loop a b y alpha n i (axpy_post a b y alpha i s)
           = Inr (axpy_post a b y alpha (nat (sint n)) s)"
  using assms
proof (induction "nat (sint n) - i" arbitrary: i)
  case 0
  then have "i = nat (sint n)" by simp
  then show ?case by simp
next
  case (Suc d)
  then have lt: "i < nat (sint n)" by simp
  then have "int i < sint n" by simp
  moreover have "q15_axpy_ref_body a b y alpha i (axpy_post a b y alpha i s)
           = Inr (axpy_post a b y alpha (Suc i) s)"
    using Suc.prems lt by (intro ref_body_post [where n = "nat (sint n)"])
  moreover have "ref_loop a b y alpha n (Suc i) (axpy_post a b y alpha (Suc i) s)
           = Inr (axpy_post a b y alpha (nat (sint n)) s)"
    using Suc lt by (intro Suc.hyps(1)) auto
  ultimately show ?case by (subst ref_loop.simps) simp
qed

lemma q15_axpy_ref_post:
  assumes "call_ok s a b y n"
  shows "q15_axpy_ref a b y n alpha s = Inr (axpy_post a b y alpha (nat (sint n)) s)"
  using assms ref_loop_post [of s y n a b 0 alpha]
  by (simp add: call_ok_def q15_axpy_ref_def axpy_post_0)

subsection \<open>One chunk of the vector loop\<close>

lemma vle16_post:
  assumes "in_bounds s y n" "in_bounds s x n" "read_ahead x y n" "i + unat vl \<le> n"
  shows "vle16_v_i16m1 (axpy_post a b y alpha i s) (ptr_add x i) vl
           = Inr (map (\<lambda>j. heap s (blk x) ! (off x + j)) [i..<i + unat vl])"
proof -
  let ?h = "heap (axpy_post a b y alpha i s) (blk x)"
  have iy: "in_bounds s y i" using assms by (simp add: in_bounds_def)
  have len: "length ?h = length (heap s (blk x))" using iy by (rule length_heap_post)
  have fit: "off x + i + unat vl \<le> length (heap s (blk x))"
    using assms by (simp add: in_bounds_def)
  have "take (unat vl) (drop (off x + i) ?h) = map (\<lambda>j. heap s (blk x) ! (off x + j)) [i..<i + unat vl]"
  proof (rule nth_equalityI)
    show "length (take (unat vl) (drop (off x + i) ?h))
            = length (map (\<lambda>j. heap s (blk x) ! (off x + j)) [i..<i + unat vl])"
      using fit len by simp
  next
    fix j assume "j < length (take (unat vl) (drop (off x + i) ?h))"
    then have j: "j < unat vl" by simp
    then have "?h ! (off x + (i + j)) = heap s (blk x) ! (off x + (i + j))"
      using assms by (intro heap_post_unread [where n = n]) auto
    then show "take (unat vl) (drop (off x + i) ?h) ! j
            = map (\<lambda>j. heap s (blk x) ! (off x + j)) [i..<i + unat vl] ! j"
      using j fit len by (simp add: add.assoc)
  qed
  then show ?thesis using fit len by (simp add: vle16_v_i16m1_def ptr_add_def)
qed

lemma rvv_lanes:
  assumes "length va = unat vl" "length vb = unat vl"
  shows "vnclip_wx_i16m1 rm
           (vmax_vx_i32m2
              (vmin_vx_i32m2 (vadd_vv_i32m2 (vwadd_vx_i32m2 va 0 vl) (vwmul_vx_i32m2 vb alpha vl) vl)
                 32767 vl)
              (- 32768) vl)
           0 vl
         = map2 (\<lambda>p q. axpy_q15 p alpha q) va vb"
proof (rule nth_equalityI)
  show "length (vnclip_wx_i16m1 rm
           (vmax_vx_i32m2
              (vmin_vx_i32m2 (vadd_vv_i32m2 (vwadd_vx_i32m2 va 0 vl) (vwmul_vx_i32m2 vb alpha vl) vl)
                 32767 vl)
              (- 32768) vl)
           0 vl) = length (map2 (\<lambda>p q. axpy_q15 p alpha q) va vb)"
    using assms
    by (simp add: vnclip_wx_i16m1_def vmax_vx_i32m2_def vmin_vx_i32m2_def vadd_vv_i32m2_def
        vwadd_vx_i32m2_def vwmul_vx_i32m2_def)
next
  fix j
  assume "j < length (vnclip_wx_i16m1 rm
           (vmax_vx_i32m2
              (vmin_vx_i32m2 (vadd_vv_i32m2 (vwadd_vx_i32m2 va 0 vl) (vwmul_vx_i32m2 vb alpha vl) vl)
                 32767 vl)
              (- 32768) vl)
           0 vl)"
  then have j: "j < unat vl"
    by (simp add: vnclip_wx_i16m1_def vmax_vx_i32m2_def vmin_vx_i32m2_def vadd_vv_i32m2_def
        vwadd_vx_i32m2_def vwmul_vx_i32m2_def)
  show "vnclip_wx_i16m1 rm
           (vmax_vx_i32m2
              (vmin_vx_i32m2 (vadd_vv_i32m2 (vwadd_vx_i32m2 va 0 vl) (vwmul_vx_i32m2 vb alpha vl) vl)
                 32767 vl)
              (- 32768) vl)
           0 vl ! j = map2 (\<lambda>p q. axpy_q15 p alpha q) va vb ! j"
    using j assms
    by (simp add: vnclip_wx_i16m1_def vmax_vx_i32m2_def vmin_vx_i32m2_def vadd_vv_i32m2_def
        vwadd_vx_i32m2_def vwmul_vx_i32m2_def rvv_lane)
qed

lemma vse16_post:
  assumes "in_bounds s y n" "i + unat vl \<le> n"
  shows "vse16_v_i16m1 (axpy_post a b y alpha i s) (ptr_add y i)
           (map (\<lambda>j. axpy_q15 (heap s (blk a) ! (off a + j)) alpha (heap s (blk b) ! (off b + j)))
              [i..<i + unat vl]) vl
         = Inr (axpy_post a b y alpha (i + unat vl) s)"
proof -
  let ?new = "map (\<lambda>j. axpy_q15 (heap s (blk a) ! (off a + j)) alpha (heap s (blk b) ! (off b + j)))
              [i..<i + unat vl]"
  have fit: "off y + i + unat vl \<le> length (heap s (blk y))"
    using assms by (simp add: in_bounds_def)
  have ow: "overwrite (overwrite (heap s (blk y)) (off y) (outputs s a b alpha i)) (off y + i) ?new
          = overwrite (heap s (blk y)) (off y) (outputs s a b alpha (i + unat vl))"
    using fit overwrite_overwrite [of "off y" "outputs s a b alpha i" ?new "heap s (blk y)"]
    by (simp add: length_outputs outputs_add)
  have idx: "map (\<lambda>j. (blk y, off y + j)) [0..<i] @ map (\<lambda>j. (blk y, off y + i + j)) [0..<unat vl]
          = map (\<lambda>j. (blk y, off y + j)) [0..<i + unat vl]"
  proof -
    have "map (\<lambda>j. (blk y, off y + i + j)) [0..<unat vl]
        = map (\<lambda>j. (blk y, off y + j)) (map (\<lambda>j. j + i) [0..<unat vl])"
      by (simp add: ac_simps)
    also have "\<dots> = map (\<lambda>j. (blk y, off y + j)) [i..<i + unat vl]"
      by (simp only: map_add_upt add.commute)
    finally have "map (\<lambda>j. (blk y, off y + i + j)) [0..<unat vl]
        = map (\<lambda>j. (blk y, off y + j)) [i..<i + unat vl]" .
    moreover have "[0..<i + unat vl] = [0..<i] @ [i..<i + unat vl]"
      by (rule upt_add_eq_append) simp
    ultimately show ?thesis by simp
  qed
  show ?thesis
    using fit ow idx
    by (simp add: vse16_v_i16m1_def ptr_add_def axpy_post_def length_overwrite length_outputs Let_def)
qed

subsection \<open>The vector loop\<close>

lemma unat_size_of_int:
  assumes "0 \<le> sint (n :: c_int)"
  shows "unat (scast n :: size_t) = nat (sint n)"
proof -
  have "sint n < 2 ^ 31" using sint_lt [of n] by simp
  then have "sint n < 2 ^ 64" by (rule less_trans) simp
  then have "sint n mod 2 ^ 64 = sint n" using assms by simp
  moreover have "uint (word_of_int (sint n) :: size_t) = sint n mod 2 ^ 64"
    unfolding uint_word_of_int by simp
  ultimately have "unat (word_of_int (sint n) :: size_t) = nat (sint n)"
    by (simp only: unat_eq_nat_uint)
  then show ?thesis by (simp only: scast_eq)
qed

lemma remaining_count:
  assumes "0 \<le> sint (n :: c_int)" "unat (i :: size_t) < nat (sint n)"
  shows "scast n - i = of_nat (nat (sint n) - unat i)"
proof -
  have "i \<le> scast n" using assms by (simp add: word_le_nat_alt unat_size_of_int)
  then have "unat (scast n - i) = nat (sint n) - unat i"
    using assms by (simp add: unat_sub unat_size_of_int)
  then have "of_nat (unat (scast n - i)) = (of_nat (nat (sint n) - unat i) :: size_t)"
    by (rule arg_cong)
  then show ?thesis by simp
qed

lemma vsetvl_progress:
  assumes "vsetvl_ok t N" "0 \<le> sint (n :: c_int)" "N = nat (sint n)" "unat (i :: size_t) < N"
  shows "1 \<le> unat (vsetvl_e16m1 t (scast n - i))"
    and "unat i + unat (vsetvl_e16m1 t (scast n - i)) \<le> N"
    and "unat (i + vsetvl_e16m1 t (scast n - i)) = unat i + unat (vsetvl_e16m1 t (scast n - i))"
proof -
  let ?r = "N - unat i"
  let ?vl = "vsetvl_e16m1 t (scast n - i)"
  have r: "?r \<in> {1..N}" using assms by auto
  have eq: "scast n - i = of_nat ?r" unfolding assms(3) using assms(2,4) unfolding assms(3) by (rule remaining_count)
  have ok: "1 \<le> unat (vsetvl_e16m1 t (of_nat ?r)) \<and> unat (vsetvl_e16m1 t (of_nat ?r)) \<le> ?r"
    using assms(1) r unfolding vsetvl_ok_def by blast
  show "1 \<le> unat ?vl" using ok unfolding eq by blast
  show le: "unat i + unat ?vl \<le> N" using ok assms(4) unfolding eq by linarith
  have "sint n < 2 ^ 31" using sint_lt [of n] by simp
  then have "N < 2 ^ 31" using assms(2,3) by simp
  then have "unat i + unat ?vl < 2 ^ 31" using le by linarith
  then have "unat i + unat ?vl < 2 ^ LENGTH(64)" by simp
  then show "unat (i + ?vl) = unat i + unat ?vl"
    by (rule unat_add_lem [THEN iffD1])
qed

lemma rvv_body_post:
  assumes "in_bounds s y N" "in_bounds s a N" "in_bounds s b N"
    "read_ahead a y N" "read_ahead b y N"
    "vsetvl_ok t N" "0 \<le> sint n" "N = nat (sint n)" "unat i < N"
  shows "q15_axpy_rvv_body t a b y n alpha i (axpy_post a b y alpha (unat i) s)
       = Inr (i + vsetvl_e16m1 t (scast n - i),
              axpy_post a b y alpha (unat (i + vsetvl_e16m1 t (scast n - i))) s)"
proof -
  let ?vl = "vsetvl_e16m1 t (scast n - i)"
  let ?s = "axpy_post a b y alpha (unat i) s"
  let ?va = "map (\<lambda>j. heap s (blk a) ! (off a + j)) [unat i..<unat i + unat ?vl]"
  let ?vb = "map (\<lambda>j. heap s (blk b) ! (off b + j)) [unat i..<unat i + unat ?vl]"
  have le: "unat i + unat ?vl \<le> N" and sum: "unat (i + ?vl) = unat i + unat ?vl"
    using assms vsetvl_progress [of t N n i] by auto
  have la: "vle16_v_i16m1 ?s (ptr_add a (unat i)) ?vl = Inr ?va"
    using assms le by (intro vle16_post [where n = N]) auto
  have lb: "vle16_v_i16m1 ?s (ptr_add b (unat i)) ?vl = Inr ?vb"
    using assms le by (intro vle16_post [where n = N]) auto
  let ?vy = "vnclip_wx_i16m1 (vxrm t)
           (vmax_vx_i32m2
              (vmin_vx_i32m2 (vadd_vv_i32m2 (vwadd_vx_i32m2 ?va 0 ?vl) (vwmul_vx_i32m2 ?vb alpha ?vl) ?vl)
                 32767 ?vl)
              (- 32768) ?vl)
           0 ?vl"
  have lanes: "?vy = map2 (\<lambda>p q. axpy_q15 p alpha q) ?va ?vb"
    by (intro rvv_lanes) auto
  have m2: "map2 (\<lambda>p q. axpy_q15 p alpha q) ?va ?vb
         = map (\<lambda>j. axpy_q15 (heap s (blk a) ! (off a + j)) alpha (heap s (blk b) ! (off b + j)))
              [unat i..<unat i + unat ?vl]"
    by (simp add: zip_map_map zip_same_conv_map)
  have st: "vse16_v_i16m1 ?s (ptr_add y (unat i))
           (map (\<lambda>j. axpy_q15 (heap s (blk a) ! (off a + j)) alpha (heap s (blk b) ! (off b + j)))
              [unat i..<unat i + unat ?vl]) ?vl
         = Inr (axpy_post a b y alpha (unat i + unat ?vl) s)"
    using assms le by (intro vse16_post [where n = N]) auto
  have "q15_axpy_rvv_body t a b y n alpha i ?s
      = (case vse16_v_i16m1 ?s (ptr_add y (unat i)) ?vy ?vl of
           Inl e \<Rightarrow> Inl e | Inr s' \<Rightarrow> Inr (i + ?vl, s'))"
    by (simp only: q15_axpy_rvv_body_def Let_def la lb sum.case)
  also have "\<dots> = Inr (i + ?vl, axpy_post a b y alpha (unat i + unat ?vl) s)"
    by (simp only: lanes m2 st sum.case)
  finally show ?thesis by (simp only: sum)
qed

lemma rvv_loop_post:
  assumes "in_bounds s y N" "in_bounds s a N" "in_bounds s b N"
    "read_ahead a y N" "read_ahead b y N"
    "vsetvl_ok t N" "0 \<le> sint n" "N = nat (sint n)" "unat i \<le> N"
  shows "\<exists>k'. rvv_loop t a b y n alpha i k (axpy_post a b y alpha (unat i) s)
           = Some (Inr (axpy_post a b y alpha N s, k')) \<and> k' \<le> k + (N - unat i)"
  using assms(9)
proof (induction "N - unat i" arbitrary: i k rule: less_induct)
  case less
  show ?case
  proof (cases "unat i < N")
    case False
    then have "unat i = N" using less.prems by simp
    moreover from this have "\<not> i < scast n"
      using assms by (simp add: word_less_nat_alt unat_size_of_int)
    ultimately show ?thesis by (subst rvv_loop.simps) simp
  next
    case True
    let ?vl = "vsetvl_e16m1 t (scast n - i)"
    have cond: "i < scast n" using True assms by (simp add: word_less_nat_alt unat_size_of_int)
    have prog: "1 \<le> unat ?vl" "unat i + unat ?vl \<le> N" "unat (i + ?vl) = unat i + unat ?vl"
      using assms True vsetvl_progress [of t N n i] by auto
    have body: "q15_axpy_rvv_body t a b y n alpha i (axpy_post a b y alpha (unat i) s)
       = Inr (i + ?vl, axpy_post a b y alpha (unat (i + ?vl)) s)"
      using assms True by (intro rvv_body_post [where N = N]) auto
    have "\<exists>k'. rvv_loop t a b y n alpha (i + ?vl) (Suc k) (axpy_post a b y alpha (unat (i + ?vl)) s)
           = Some (Inr (axpy_post a b y alpha N s, k')) \<and> k' \<le> Suc k + (N - unat (i + ?vl))"
      using prog True by (intro less.hyps) auto
    then obtain k' where k':
      "rvv_loop t a b y n alpha (i + ?vl) (Suc k) (axpy_post a b y alpha (unat (i + ?vl)) s)
           = Some (Inr (axpy_post a b y alpha N s, k'))" "k' \<le> Suc k + (N - unat (i + ?vl))"
      by blast
    have "rvv_loop t a b y n alpha i k (axpy_post a b y alpha (unat i) s)
           = Some (Inr (axpy_post a b y alpha N s, k'))"
      using cond body k'(1) by (subst rvv_loop.simps) simp
    moreover have "k' \<le> k + (N - unat i)" using k'(2) prog by simp
    ultimately show ?thesis by blast
  qed
qed

subsection \<open>Both evaluators reach the same state\<close>

lemma q15_axpy_rvv_post:
  assumes "call_ok s a b y n" "vsetvl_ok t (nat (sint n))"
  shows "q15_axpy_rvv t a b y n alpha s = Some (Inr (axpy_post a b y alpha (nat (sint n)) s))"
proof (cases "rvv_intrinsics t")
  case False
  then show ?thesis using assms(1) by (simp add: q15_axpy_rvv_def q15_axpy_ref_post)
next
  case True
  have "\<exists>k'. rvv_loop t a b y n alpha 0 0 (axpy_post a b y alpha (unat (0 :: size_t)) s)
           = Some (Inr (axpy_post a b y alpha (nat (sint n)) s, k')) \<and> k' \<le> 0 + (nat (sint n) - unat (0 :: size_t))"
    using assms unfolding call_ok_def by (intro rvv_loop_post) auto
  then obtain k' where "rvv_loop t a b y n alpha 0 0 s
           = Some (Inr (axpy_post a b y alpha (nat (sint n)) s, k'))"
    by (auto simp: axpy_post_0)
  then show ?thesis using True by (simp add: q15_axpy_rvv_def)
qed

lemma rvv_loop_terminates:
  assumes "call_ok s a b y n" "vsetvl_ok t (nat (sint n))"
  shows "\<exists>k. rvv_loop t a b y n alpha 0 0 s
           = Some (Inr (axpy_post a b y alpha (nat (sint n)) s, k)) \<and> k \<le> nat (sint n)"
proof -
  have "\<exists>k'. rvv_loop t a b y n alpha 0 0 (axpy_post a b y alpha (unat (0 :: size_t)) s)
           = Some (Inr (axpy_post a b y alpha (nat (sint n)) s, k')) \<and> k' \<le> 0 + (nat (sint n) - unat (0 :: size_t))"
    using assms unfolding call_ok_def by (intro rvv_loop_post) auto
  then show ?thesis by (simp add: axpy_post_0)
qed

lemma output_post:
  assumes "in_bounds s y k" "i < k"
  shows "heap (axpy_post a b y alpha k s) (blk y) ! (off y + i)
       = axpy_q15 (heap s (blk a) ! (off a + i)) alpha (heap s (blk b) ! (off b + i))"
proof -
  have "off y + i < length (heap s (blk y))" using assms by (simp add: in_bounds_def)
  then show ?thesis using assms by (simp add: heap_post_nth)
qed

lemma writes_post:
  "writes (axpy_post a b y alpha k s) = writes s @ map (\<lambda>j. (blk y, off y + j)) [0..<k]"
  by (simp add: axpy_post_def)

lemma axpy_q15_zero_gain: "axpy_q15 ai 0 bi = ai"
proof -
  have "- 32768 \<le> sint ai \<and> sint ai \<le> 32767" by (rule sint16_range)
  then have "clamp (sint ai) (- 32768) 32767 = sint ai" by (simp add: clamp_def)
  then show ?thesis by (simp add: axpy_q15_def)
qed

lemma axpy_q15_upper: "axpy_q15 32767 32767 32767 = 32767"
  by (simp add: axpy_q15_def clamp_def)

lemma ex_call_ok: "call_ok ex_state ex_a ex_b ex_y 3"
  by (simp add: call_ok_def in_bounds_def read_ahead_def ex_state_def ex_a_def ex_b_def ex_y_def)

lemma ex_vsetvl_ok: "vsetvl_ok ex_target 3"
  unfolding vsetvl_ok_def
proof
  fix r :: nat
  assume "r \<in> {1..3}"
  then have "r = 1 \<or> r = 2 \<or> r = 3" by auto
  then show "1 \<le> unat (vsetvl_e16m1 ex_target (of_nat r))
      \<and> unat (vsetvl_e16m1 ex_target (of_nat r)) \<le> r"
    by (elim disjE) (simp_all add: ex_target_def)
qed

lemma ex_vsetvl2_ok: "vsetvl_ok ex_target2 3"
  unfolding vsetvl_ok_def
proof
  fix r :: nat
  assume "r \<in> {1..3}"
  then have "r = 1 \<or> r = 2 \<or> r = 3" by auto
  then show "1 \<le> unat (vsetvl_e16m1 ex_target2 (of_nat r))
      \<and> unat (vsetvl_e16m1 ex_target2 (of_nat r)) \<le> r"
    by (elim disjE) (simp_all add: ex_target2_def)
qed

lemma ex_length: "nat (sint (3 :: c_int)) = 3"
  by simp

subsection \<open>The comparison loop\<close>

lemma abs_diff_range: "0 \<le> abs_diff s ref test i \<and> abs_diff s ref test i \<le> 65535"
  using sint16_range [of "heap s (blk ref) ! (off ref + i)"]
    sint16_range [of "heap s (blk test) ! (off test + i)"]
  unfolding abs_diff_def by linarith

lemma max_abs_diff_0: "max_abs_diff s ref test 0 = 0"
  by (simp add: max_abs_diff_def)

lemma max_abs_diff_Suc:
  "max_abs_diff s ref test (Suc k) = max (abs_diff s ref test k) (max_abs_diff s ref test k)"
proof -
  have "insert 0 (abs_diff s ref test ` {..<Suc k})
      = insert (abs_diff s ref test k) (insert 0 (abs_diff s ref test ` {..<k}))"
    by (auto simp: lessThan_Suc)
  then show ?thesis
    unfolding max_abs_diff_def by (simp only: Max_insert finite_insert finite_imageI finite_lessThan insert_not_empty not_False_eq_True)
qed

lemma max_abs_diff_range: "0 \<le> max_abs_diff s ref test k \<and> max_abs_diff s ref test k \<le> 65535"
proof (induction k)
  case 0
  show ?case by (simp add: max_abs_diff_0)
next
  case (Suc k)
  then show ?case
    using abs_diff_range [of s ref test k] unfolding max_abs_diff_Suc max_def by presburger
qed

lemma sint_small: "0 \<le> k \<Longrightarrow> k \<le> 65535 \<Longrightarrow> sint (word_of_int k :: int32_t) = k"
proof -
  assume "0 \<le> k" "k \<le> 65535"
  then have "signed_take_bit 31 k = k" by (intro signed_take_bit_int_eq_self) auto
  then show ?thesis by (simp add: sint_sbintrunc')
qed

lemma all_equal_Suc:
  "all_equal s ref test (Suc k) \<longleftrightarrow>
     all_equal s ref test k \<and> heap s (blk ref) ! (off ref + k) = heap s (blk test) ! (off test + k)"
  by (auto simp: all_equal_def less_Suc_eq)

lemma sub_widened:
  fixes r t :: int16_t
  shows "sub_i32 (scast r) (scast t) = Inr (scast r - scast t)"
    and "sint (scast r - scast t :: int32_t) = sint r - sint t"
proof -
  have rng: "- 65535 \<le> sint r - sint t \<and> sint r - sint t \<le> 65535"
    using sint16_range [of r] sint16_range [of t] by linarith
  then have "- (2 ^ 31) \<le> sint r - sint t \<and> sint r - sint t < 2 ^ 31" by simp
  then show "sub_i32 (scast r) (scast t) = Inr (scast r - scast t)"
    by (simp add: sub_i32_def sint_scast_16_32)
  have "signed_take_bit 31 (sint r - sint t) = sint r - sint t"
    using rng by (intro signed_take_bit_int_eq_self) auto
  then show "sint (scast r - scast t :: int32_t) = sint r - sint t"
    by (simp add: sint_word_ariths sint_scast_16_32)
qed

lemma neg_diff:
  fixes d :: int32_t
  assumes "- 65535 \<le> sint d" "sint d < 0"
  shows "neg_i32 d = Inr (- d)" and "sint (- d) = - sint d"
proof -
  have "- sint d < 2 ^ 31" using assms by simp
  then show "neg_i32 d = Inr (- d)" by (simp add: neg_i32_def)
  have "signed_take_bit 31 (- sint d) = - sint d"
    using assms by (intro signed_take_bit_int_eq_self) auto
  then show "sint (- d) = - sint d" by (simp add: sint_word_ariths)
qed

lemma sint_eq_iff_16: "sint (r :: int16_t) = sint (t :: int16_t) \<longleftrightarrow> r = t"
  by (auto intro: signed_word_eqI)

lemma abs_diff_word:
  fixes r t :: int16_t
  shows "\<exists>d. (case sub_i32 (scast r) (scast t) of
               Inl e \<Rightarrow> Inl e
             | Inr d \<Rightarrow> if sint d < 0 then neg_i32 d else Inr d) = Inr d
           \<and> sint d = \<bar>sint r - sint t\<bar>"
proof -
  let ?d = "scast r - scast t :: int32_t"
  have sub: "sub_i32 (scast r) (scast t) = Inr ?d" and val: "sint ?d = sint r - sint t"
    by (rule sub_widened)+
  have rng: "- 65535 \<le> sint ?d"
    using val sint16_range [of r] sint16_range [of t] by linarith
  show ?thesis
  proof (cases "sint ?d < 0")
    case True
    then have "neg_i32 ?d = Inr (- ?d)" "sint (- ?d) = - sint ?d"
      using rng by (simp_all only: neg_diff)
    then show ?thesis using True val sub by (intro exI [of _ "- ?d"]) simp
  next
    case False
    then show ?thesis using val sub by (intro exI [of _ ?d]) simp
  qed
qed

lemma verify_body_post:
  assumes "in_bounds s ref n" "in_bounds s test n" "i < n"
  shows "verify_equal_body s ref test i (verify_post s ref test i)
       = Inr (verify_post s ref test (Suc i))"
proof -
  let ?r = "heap s (blk ref) ! (off ref + i)"
  let ?t = "heap s (blk test) ! (off test + i)"
  let ?M = "max_abs_diff s ref test i"
  let ?A = "abs_diff s ref test i"
  have lr: "load16 s ref i = Inr ?r" and lt: "load16 s test i = Inr ?t"
    using assms by (simp_all add: load16_def in_bounds_def)
  obtain d where d: "(case sub_i32 (scast ?r) (scast ?t) of
               Inl e \<Rightarrow> Inl e
             | Inr d \<Rightarrow> if sint d < 0 then neg_i32 d else Inr d) = Inr d"
      and sd: "sint d = ?A"
    using abs_diff_word [of ?r ?t] unfolding abs_diff_def by blast
  have dw: "d = word_of_int ?A" using sd by (metis of_int_sint scast_id)
  have d0: "d \<noteq> 0 \<longleftrightarrow> ?r \<noteq> ?t"
  proof -
    have "d = 0 \<longleftrightarrow> sint d = 0" by (simp add: signed_eq_0_iff)
    also have "\<dots> \<longleftrightarrow> sint ?r = sint ?t" unfolding sd abs_diff_def by simp
    also have "\<dots> \<longleftrightarrow> ?r = ?t" by (rule sint_eq_iff_16)
    finally show ?thesis by simp
  qed
  have sM: "sint (word_of_int ?M :: int32_t) = ?M"
    using max_abs_diff_range [of s ref test i] by (intro sint_small) auto
  have ok: "(if d \<noteq> 0 then 0 else (if all_equal s ref test i then 1 else 0 :: c_int))
         = (if all_equal s ref test (Suc i) then 1 else 0)"
    unfolding all_equal_Suc d0 by simp
  have md: "(if sint (word_of_int ?M :: int32_t) < sint d then d else word_of_int ?M)
         = word_of_int (max_abs_diff s ref test (Suc i))"
  proof -
    have sA: "sint (word_of_int ?A :: int32_t) = ?A"
      using abs_diff_range [of s ref test i] by (intro sint_small) auto
    show ?thesis unfolding dw by (simp add: sM sA max_abs_diff_Suc max_def)
  qed
  have "verify_equal_body s ref test i (verify_post s ref test i)
      = (case (case sub_i32 (scast ?r) (scast ?t) of
               Inl e \<Rightarrow> Inl e
             | Inr d \<Rightarrow> if sint d < 0 then neg_i32 d else Inr d) of
           Inl e \<Rightarrow> Inl e
         | Inr d \<Rightarrow> Inr (if d \<noteq> 0 then 0 else (if all_equal s ref test i then 1 else 0),
                        if sint (word_of_int ?M :: int32_t) < sint d then d else word_of_int ?M))"
    by (simp add: verify_equal_body_def verify_post_def lr lt split: sum.split)
  also have "\<dots> = Inr (verify_post s ref test (Suc i))"
    unfolding d by (simp only: sum.case ok md verify_post_def)
  finally show ?thesis .
qed

lemma verify_loop_post:
  assumes "in_bounds s ref (nat (sint n))" "in_bounds s test (nat (sint n))" "i \<le> nat (sint n)"
  shows "verify_loop s ref test n i (verify_post s ref test i)
       = Inr (verify_post s ref test (nat (sint n)))"
  using assms(3)
proof (induction "nat (sint n) - i" arbitrary: i)
  case 0
  then have "i = nat (sint n)" by simp
  then show ?case by simp
next
  case (Suc d)
  then have lt: "i < nat (sint n)" by simp
  then have c: "int i < sint n" by simp
  have b: "verify_equal_body s ref test i (verify_post s ref test i)
       = Inr (verify_post s ref test (Suc i))"
    using assms(1,2) lt by (rule verify_body_post)
  have r: "verify_loop s ref test n (Suc i) (verify_post s ref test (Suc i))
       = Inr (verify_post s ref test (nat (sint n)))"
    using Suc lt by (intro Suc.hyps(1)) auto
  show ?case using c b r by (subst verify_loop.simps) simp
qed

lemma verify_post_0: "verify_post s ref test 0 = (1, 0)"
  by (simp add: verify_post_def all_equal_def max_abs_diff_0)

lemma verify_equal_post:
  assumes "in_bounds s ref (nat (sint n))" "in_bounds s test (nat (sint n))"
  shows "verify_equal s ref test n = Inr (verify_post s ref test (nat (sint n)))"
  using verify_loop_post [OF assms, of 0] by (simp add: verify_equal_def verify_post_0)

lemma max_abs_diff_zero_iff:
  "max_abs_diff s ref test k = 0 \<longleftrightarrow> all_equal s ref test k"
proof (induction k)
  case 0
  show ?case by (simp add: max_abs_diff_0 all_equal_def)
next
  case (Suc k)
  have "abs_diff s ref test k = 0 \<longleftrightarrow>
      heap s (blk ref) ! (off ref + k) = heap s (blk test) ! (off test + k)"
    unfolding abs_diff_def using sint_eq_iff_16 by auto
  then show ?case
    using Suc abs_diff_range [of s ref test k] max_abs_diff_range [of s ref test k]
    unfolding max_abs_diff_Suc all_equal_Suc max_def by auto
qed

subsection \<open>A concrete run\<close>

text \<open>
  On the two-lane target the vector loop takes a chunk of two elements and a chunk of one;
  the scalar loop takes three iterations. Element 1 saturates, elements 0 and 2 pass through,
  and element 3 of the output block, beyond \<open>n\<close>, keeps its value.
\<close>

lemma ex_two_chunks:
  "rvv_loop ex_target2 ex_a ex_b ex_y 3 2 0 0 ex_state
     = Some (Inr (\<lparr>heap = (heap ex_state)(2 := [120, 32767, 32766, 4]),
                    writes = [(2, 0), (2, 1), (2, 2)]\<rparr>, 2))"
  apply (subst rvv_loop.simps)
  apply (simp add: q15_axpy_rvv_body_def ex_target2_def ex_state_def ex_a_def ex_b_def ex_y_def
      vle16_v_i16m1_def vse16_v_i16m1_def ptr_add_def vwmul_vx_i32m2_def vwadd_vx_i32m2_def
      vadd_vv_i32m2_def vmin_vx_i32m2_def vmax_vx_i32m2_def vnclip_wx_i16m1_def
      vwmul_lane_def vwadd_lane_def vmin_lane_def vmax_lane_def vnclip_lane_def round_incr_def
      overwrite_def Let_def)
  apply (subst rvv_loop.simps)
  apply (simp add: q15_axpy_rvv_body_def
      vle16_v_i16m1_def vse16_v_i16m1_def ptr_add_def vwmul_vx_i32m2_def vwadd_vx_i32m2_def
      vadd_vv_i32m2_def vmin_vx_i32m2_def vmax_vx_i32m2_def vnclip_wx_i16m1_def
      vwmul_lane_def vwadd_lane_def vmin_lane_def vmax_lane_def vnclip_lane_def round_incr_def
      overwrite_def Let_def)
  apply (subst rvv_loop.simps)
  apply (simp add: fun_upd_twist)
  done

lemma ex_ref_run:
  "q15_axpy_ref ex_a ex_b ex_y 3 2 ex_state
     = Inr \<lparr>heap = (heap ex_state)(2 := [120, 32767, 32766, 4]),
            writes = [(2, 0), (2, 1), (2, 2)]\<rparr>"
  by (simp add: q15_axpy_ref_def q15_axpy_ref_body_def load16_def store16_def mul_i32_def
      add_i32_def sat_q15_scalar_def ex_state_def ex_a_def ex_b_def ex_y_def fun_upd_twist)

lemma ex_verify_run: "verify_equal ex_state ex_a ex_b 3 = Inr (0, 65535)"
  by (simp add: verify_equal_def verify_equal_body_def load16_def sub_i32_def neg_i32_def
      ex_state_def ex_a_def ex_b_def)

section \<open>The claims\<close>

text \<open>
  C1. On every call that keeps the caller's side of the contract (\<open>n \<ge> 0\<close>, arrays of at
  least \<open>n\<close> elements, no output stored over an input still to be read) and on every
  target whose chunk-size query answers between 1 and the count it is asked for,
  \<open>q15_axpy_rvv\<close> returns, and returns the very state that \<open>q15_axpy_ref\<close> returns: the
  same memory, element by element, for every 16-bit \<open>alpha\<close>. Neither call faults.
\<close>

theorem q15_axpy_rvv_equals_ref:
  assumes "call_ok s a b y n" "vsetvl_ok t (nat (sint n))"
  shows "q15_axpy_rvv t a b y n alpha s = Some (q15_axpy_ref a b y n alpha s)
    \<and> (\<exists>s'. q15_axpy_ref a b y n alpha s = Inr s')"
  using assms by (simp add: q15_axpy_rvv_post q15_axpy_ref_post)

theorem q15_axpy_rvv_equals_ref_witness:
  "call_ok ex_state ex_a ex_b ex_y 3 \<and> vsetvl_ok ex_target (nat (sint (3 :: c_int)))
    \<and> q15_axpy_rvv ex_target ex_a ex_b ex_y 3 2 ex_state
        = Some (q15_axpy_ref ex_a ex_b ex_y 3 2 ex_state)
    \<and> (\<exists>s'. q15_axpy_ref ex_a ex_b ex_y 3 2 ex_state = Inr s')"
proof -
  have h: "vsetvl_ok ex_target (nat (sint (3 :: c_int)))" using ex_vsetvl_ok by simp
  show ?thesis
    using ex_call_ok h q15_axpy_rvv_equals_ref [OF ex_call_ok h, of 2] by blast
qed

text \<open>
  C2. On every call that keeps the caller's side of the contract, \<open>q15_axpy_ref\<close> returns
  without a fault, and for every index \<open>i < n\<close> the output \<open>y[i]\<close> is the exact integer
  \<open>a[i] + alpha * b[i]\<close> (operands sign-extended, inputs as they were before the call)
  clamped: 32767 when the sum is above 32767, -32768 when it is below -32768, the sum itself
  otherwise.
\<close>

theorem q15_axpy_ref_contract:
  assumes "call_ok s a b y n"
  shows "\<exists>s'. q15_axpy_ref a b y n alpha s = Inr s'
    \<and> (\<forall>i < nat (sint n).
          sint (heap s' (blk y) ! (off y + i)) =
            (let acc = sint (heap s (blk a) ! (off a + i)) + sint alpha * sint (heap s (blk b) ! (off b + i))
             in if 32767 < acc then 32767 else if acc < - 32768 then - 32768 else acc))"
proof -
  have yb: "in_bounds s y (nat (sint n))" using assms by (simp add: call_ok_def)
  have "sint (heap (axpy_post a b y alpha (nat (sint n)) s) (blk y) ! (off y + i)) =
            (let acc = sint (heap s (blk a) ! (off a + i)) + sint alpha * sint (heap s (blk b) ! (off b + i))
             in if 32767 < acc then 32767 else if acc < - 32768 then - 32768 else acc)"
    if "i < nat (sint n)" for i
    using that yb by (simp add: output_post sint_axpy_q15 clamp_def Let_def)
  then show ?thesis using assms by (simp add: q15_axpy_ref_post)
qed

theorem q15_axpy_ref_contract_witness:
  "call_ok ex_state ex_a ex_b ex_y 3
    \<and> (\<exists>s'. q15_axpy_ref ex_a ex_b ex_y 3 2 ex_state = Inr s'
    \<and> (\<forall>i < nat (sint (3 :: c_int)).
          sint (heap s' (blk ex_y) ! (off ex_y + i)) =
            (let acc = sint (heap ex_state (blk ex_a) ! (off ex_a + i))
                   + sint (2 :: int16_t) * sint (heap ex_state (blk ex_b) ! (off ex_b + i))
             in if 32767 < acc then 32767 else if acc < - 32768 then - 32768 else acc)))"
  using ex_call_ok q15_axpy_ref_contract [OF ex_call_ok, of 2] by (rule conjI)

text \<open>
  C3. In a build without the vector intrinsics, \<open>q15_axpy_rvv\<close> is \<open>q15_axpy_ref\<close>: on every
  input, valid or not, it returns what \<open>q15_axpy_ref\<close> returns on that input, whatever the
  chunk-size query and the rounding mode of the target are.
\<close>

theorem q15_axpy_rvv_fallback:
  assumes "\<not> rvv_intrinsics t"
  shows "q15_axpy_rvv t a b y n alpha s = Some (q15_axpy_ref a b y n alpha s)"
  using assms by (simp add: q15_axpy_rvv_def)

theorem q15_axpy_rvv_fallback_witness:
  "\<not> rvv_intrinsics (ex_target\<lparr>rvv_intrinsics := False\<rparr>)
    \<and> q15_axpy_rvv (ex_target\<lparr>rvv_intrinsics := False\<rparr>) ex_a ex_b ex_y 3 2 ex_state
        = Some (q15_axpy_ref ex_a ex_b ex_y 3 2 ex_state)"
proof -
  have h: "\<not> rvv_intrinsics (ex_target\<lparr>rvv_intrinsics := False\<rparr>)" by simp
  show ?thesis
    using h q15_axpy_rvv_fallback [OF h, of ex_a ex_b ex_y 3 2 ex_state] by (rule conjI)
qed

text \<open>
  C4. For all 16-bit \<open>a[i]\<close>, \<open>b[i]\<close> and \<open>alpha\<close> the exact value \<open>a[i] + alpha * b[i]\<close>
  has magnitude at most \<open>2^30 + 2^15\<close> and lies strictly inside the signed 32-bit range.
  So the multiplication and the addition of the scalar loop never take the overflow
  branch, and the 32-bit accumulator of either path holds the exact value.
\<close>

theorem accumulator_never_overflows:
  fixes a alpha b :: int16_t
  shows "\<bar>sint a + sint alpha * sint b\<bar> \<le> 2 ^ 30 + 2 ^ 15
    \<and> - (2 ^ 31) < sint a + sint alpha * sint b
    \<and> sint a + sint alpha * sint b < 2 ^ 31 - 1
    \<and> mul_i32 (scast alpha) (scast b) = Inr (scast alpha * scast b)
    \<and> add_i32 (scast a) (scast alpha * scast b) = Inr (scast a + scast alpha * scast b)
    \<and> sint (scast a + scast alpha * scast b :: int32_t) = sint a + sint alpha * sint b
    \<and> sint (vwadd_lane a 0 + vwmul_lane b alpha) = sint a + sint alpha * sint b"
proof -
  have bound: "\<bar>sint a + sint alpha * sint b\<bar> \<le> 1073774592" by (rule sint_acc_bound)
  have vec: "vwadd_lane a 0 + vwmul_lane b alpha = scast a + scast alpha * scast b"
    by (simp add: vwadd_lane_def vwmul_lane_def mult.commute)
  have "\<bar>sint a + sint alpha * sint b\<bar> \<le> 2 ^ 30 + 2 ^ 15" using bound by simp
  moreover have "- (2 ^ 31) < sint a + sint alpha * sint b" using bound by (simp add: abs_le_iff)
  moreover have "sint a + sint alpha * sint b < 2 ^ 31 - 1" using bound by (simp add: abs_le_iff)
  ultimately show ?thesis
    by (simp only: mul_i32_widened add_i32_widened sint_wacc vec simp_thms)
qed

text \<open>
  C5. Upper saturation boundary: at an index with \<open>a[i] = b[i] = 32767\<close> and gain
  \<open>alpha = 32767\<close>, the multiplication and the addition of the scalar loop return the
  accumulator \<open>32767 + 32767 * 32767\<close>, which is above 32767, and \<open>sat_q15_scalar\<close> maps
  it to 32767; the 32-bit accumulator of a vector lane holds the same value, the minimum
  with 32767 replaces it by 32767, and the lane narrows to 32767. Both evaluators store
  \<open>y[i] = 32767\<close>.
\<close>

theorem upper_saturation_boundary:
  assumes "call_ok s a b y n" "vsetvl_ok t (nat (sint n))" "i < nat (sint n)"
    "heap s (blk a) ! (off a + i) = 32767" "heap s (blk b) ! (off b + i) = 32767"
  shows "(\<exists>p acc. mul_i32 (scast (32767 :: int16_t)) (scast (heap s (blk b) ! (off b + i))) = Inr p
          \<and> add_i32 (scast (heap s (blk a) ! (off a + i))) p = Inr acc
          \<and> sint acc = 32767 + 32767 * 32767 \<and> 32767 < sint acc
          \<and> sat_q15_scalar acc = 32767)
    \<and> sint (vwadd_lane (heap s (blk a) ! (off a + i)) 0
               + vwmul_lane (heap s (blk b) ! (off b + i)) 32767) = 32767 + 32767 * 32767
    \<and> 32767 < sint (vwadd_lane (heap s (blk a) ! (off a + i)) 0
                      + vwmul_lane (heap s (blk b) ! (off b + i)) 32767)
    \<and> vmin_lane (vwadd_lane (heap s (blk a) ! (off a + i)) 0
                  + vwmul_lane (heap s (blk b) ! (off b + i)) 32767) 32767 = 32767
    \<and> vnclip_lane (vxrm t)
          (vmax_lane (vmin_lane (vwadd_lane (heap s (blk a) ! (off a + i)) 0
                                 + vwmul_lane (heap s (blk b) ! (off b + i)) 32767) 32767)
             (- 32768)) 0 = 32767
    \<and> (\<exists>s'. q15_axpy_ref a b y n 32767 s = Inr s' \<and> heap s' (blk y) ! (off y + i) = 32767)
    \<and> (\<exists>s'. q15_axpy_rvv t a b y n 32767 s = Some (Inr s') \<and> heap s' (blk y) ! (off y + i) = 32767)"
proof -
  let ?acc = "scast (32767 :: int16_t) + scast (32767 :: int16_t) * scast (32767 :: int16_t) :: int32_t"
  let ?vacc = "vwadd_lane (32767 :: int16_t) 0 + vwmul_lane (32767 :: int16_t) 32767"
  have yb: "in_bounds s y (nat (sint n))" using assms by (simp add: call_ok_def)
  have m: "mul_i32 (scast (32767 :: int16_t)) (scast (32767 :: int16_t))
         = Inr (scast (32767 :: int16_t) * scast (32767 :: int16_t))"
    by (rule mul_i32_widened)
  have ad: "add_i32 (scast (32767 :: int16_t)) (scast (32767 :: int16_t) * scast (32767 :: int16_t))
         = Inr ?acc"
    by (rule add_i32_widened)
  have "sint ?acc = sint (32767 :: int16_t) + sint (32767 :: int16_t) * sint (32767 :: int16_t)"
    by (rule sint_wacc)
  then have v: "sint ?acc = 32767 + 32767 * 32767" by simp
  have hi: "32767 < sint ?acc" unfolding v by simp
  have sat: "sat_q15_scalar ?acc = 32767"
    by (simp only: sat_q15_scalar_acc axpy_q15_upper)
  have scalar: "\<exists>p acc. mul_i32 (scast (32767 :: int16_t)) (scast (32767 :: int16_t)) = Inr p
          \<and> add_i32 (scast (32767 :: int16_t)) p = Inr acc
          \<and> sint acc = 32767 + 32767 * 32767 \<and> 32767 < sint acc
          \<and> sat_q15_scalar acc = 32767"
    using m ad v hi sat by blast
  have veq: "?vacc = ?acc" by (simp add: vwadd_lane_def vwmul_lane_def)
  have vv: "sint ?vacc = 32767 + 32767 * 32767" unfolding veq by (rule v)
  have vhi: "32767 < sint ?vacc" unfolding vv by simp
  have vmin: "vmin_lane ?vacc 32767 = 32767" using vhi by (simp add: vmin_lane_def)
  have vout: "vnclip_lane (vxrm t) (vmax_lane (vmin_lane ?vacc 32767) (- 32768)) 0 = 32767"
    by (simp only: rvv_lane axpy_q15_upper)
  have "heap (axpy_post a b y 32767 (nat (sint n)) s) (blk y) ! (off y + i) = 32767"
    using yb assms(3,4,5) by (simp add: output_post axpy_q15_upper)
  then have ref: "\<exists>s'. q15_axpy_ref a b y n 32767 s = Inr s' \<and> heap s' (blk y) ! (off y + i) = 32767"
    and rvv: "\<exists>s'. q15_axpy_rvv t a b y n 32767 s = Some (Inr s') \<and> heap s' (blk y) ! (off y + i) = 32767"
    using assms(1,2) by (simp_all add: q15_axpy_ref_post q15_axpy_rvv_post)
  from scalar vv vhi vmin vout ref rvv show ?thesis
    unfolding assms(4,5) by - (intro conjI; assumption)
qed

theorem upper_saturation_boundary_witness:
  "call_ok ex_state ex_a ex_b ex_y 3 \<and> vsetvl_ok ex_target (nat (sint (3 :: c_int)))
    \<and> 1 < nat (sint (3 :: c_int))
    \<and> heap ex_state (blk ex_a) ! (off ex_a + 1) = 32767
    \<and> heap ex_state (blk ex_b) ! (off ex_b + 1) = 32767
    \<and> (\<exists>p acc. mul_i32 (scast (32767 :: int16_t)) (scast (heap ex_state (blk ex_b) ! (off ex_b + 1))) = Inr p
          \<and> add_i32 (scast (heap ex_state (blk ex_a) ! (off ex_a + 1))) p = Inr acc
          \<and> sint acc = 32767 + 32767 * 32767 \<and> 32767 < sint acc
          \<and> sat_q15_scalar acc = 32767)
    \<and> 32767 < sint (vwadd_lane (heap ex_state (blk ex_a) ! (off ex_a + 1)) 0
                      + vwmul_lane (heap ex_state (blk ex_b) ! (off ex_b + 1)) 32767)
    \<and> (\<exists>s'. q15_axpy_ref ex_a ex_b ex_y 3 32767 ex_state = Inr s'
          \<and> heap s' (blk ex_y) ! (off ex_y + 1) = 32767)
    \<and> (\<exists>s'. q15_axpy_rvv ex_target ex_a ex_b ex_y 3 32767 ex_state = Some (Inr s')
          \<and> heap s' (blk ex_y) ! (off ex_y + 1) = 32767)"
proof -
  have h: "vsetvl_ok ex_target (nat (sint (3 :: c_int)))" using ex_vsetvl_ok by simp
  have i: "1 < nat (sint (3 :: c_int))" by simp
  have a: "heap ex_state (blk ex_a) ! (off ex_a + 1) = 32767"
    by (simp add: ex_state_def ex_a_def)
  have b: "heap ex_state (blk ex_b) ! (off ex_b + 1) = 32767"
    by (simp add: ex_state_def ex_b_def)
  show ?thesis
    using ex_call_ok h i a b upper_saturation_boundary [OF ex_call_ok h i a b] by (intro conjI) blast+
qed

text \<open>
  C6. Zero-gain identity: with \<open>alpha = 0\<close>, on every call that keeps the contract, both
  evaluators return the same state, and in it \<open>y[i]\<close> is the initial \<open>a[i]\<close> for every
  \<open>i < n\<close>.
\<close>

theorem zero_gain_identity:
  assumes "call_ok s a b y n" "vsetvl_ok t (nat (sint n))"
  shows "\<exists>s'. q15_axpy_ref a b y n 0 s = Inr s' \<and> q15_axpy_rvv t a b y n 0 s = Some (Inr s')
    \<and> (\<forall>i < nat (sint n). heap s' (blk y) ! (off y + i) = heap s (blk a) ! (off a + i))"
proof -
  have yb: "in_bounds s y (nat (sint n))" using assms by (simp add: call_ok_def)
  have "heap (axpy_post a b y 0 (nat (sint n)) s) (blk y) ! (off y + i) = heap s (blk a) ! (off a + i)"
    if "i < nat (sint n)" for i
    using that yb by (simp add: output_post axpy_q15_zero_gain)
  then show ?thesis
    using assms by (simp add: q15_axpy_ref_post q15_axpy_rvv_post)
qed

theorem zero_gain_identity_witness:
  "call_ok ex_state ex_a ex_b ex_y 3 \<and> vsetvl_ok ex_target (nat (sint (3 :: c_int)))
    \<and> (\<exists>s'. q15_axpy_ref ex_a ex_b ex_y 3 0 ex_state = Inr s'
          \<and> q15_axpy_rvv ex_target ex_a ex_b ex_y 3 0 ex_state = Some (Inr s')
          \<and> (\<forall>i < nat (sint (3 :: c_int)).
                heap s' (blk ex_y) ! (off ex_y + i) = heap ex_state (blk ex_a) ! (off ex_a + i)))"
proof -
  have h: "vsetvl_ok ex_target (nat (sint (3 :: c_int)))" using ex_vsetvl_ok by simp
  show ?thesis
    using ex_call_ok h zero_gain_identity [OF ex_call_ok h] by blast
qed

text \<open>
  C7. When the chunk-size query answers \<open>1 \<le> vl \<le> n - i\<close> for every remaining count
  \<open>n - i > 0\<close>, and the caller keeps its side of the contract, the loop of
  \<open>q15_axpy_rvv\<close> returns, without a fault, after at most \<open>n\<close> iterations. Every
  iteration moves the cursor strictly forward and not beyond \<open>n\<close>. The stores of the loop
  are those of \<open>y[0]\<close>, ..., \<open>y[n-1]\<close>, each index once, and every output holds its value.
\<close>

theorem rvv_loop_completes:
  assumes "call_ok s a b y n" "vsetvl_ok t (nat (sint n))"
  shows "\<exists>s' k. rvv_loop t a b y n alpha 0 0 s = Some (Inr (s', k))
    \<and> k \<le> nat (sint n)
    \<and> writes s' = writes s @ map (\<lambda>j. (blk y, off y + j)) [0..<nat (sint n)]
    \<and> (\<forall>j < nat (sint n). heap s' (blk y) ! (off y + j)
          = axpy_q15 (heap s (blk a) ! (off a + j)) alpha (heap s (blk b) ! (off b + j)))
    \<and> (\<forall>i. unat i < nat (sint n) \<longrightarrow>
          unat i < unat (i + vsetvl_e16m1 t (scast n - i))
          \<and> unat (i + vsetvl_e16m1 t (scast n - i)) \<le> nat (sint n))"
proof -
  have n0: "0 \<le> sint n" and yb: "in_bounds s y (nat (sint n))"
    using assms by (simp_all add: call_ok_def)
  obtain k where k: "rvv_loop t a b y n alpha 0 0 s
      = Some (Inr (axpy_post a b y alpha (nat (sint n)) s, k))" "k \<le> nat (sint n)"
    using rvv_loop_terminates [OF assms] by blast
  have out: "\<forall>j < nat (sint n). heap (axpy_post a b y alpha (nat (sint n)) s) (blk y) ! (off y + j)
          = axpy_q15 (heap s (blk a) ! (off a + j)) alpha (heap s (blk b) ! (off b + j))"
    using yb by (simp add: output_post)
  have prog: "unat i < unat (i + vsetvl_e16m1 t (scast n - i))
          \<and> unat (i + vsetvl_e16m1 t (scast n - i)) \<le> nat (sint n)"
    if "unat i < nat (sint n)" for i :: size_t
    using vsetvl_progress [OF assms(2) n0 refl that] by linarith
  show ?thesis
    using k out prog writes_post [of a b y alpha "nat (sint n)" s] by blast
qed

theorem rvv_loop_completes_witness:
  "call_ok ex_state ex_a ex_b ex_y 3 \<and> vsetvl_ok ex_target2 (nat (sint (3 :: c_int)))
    \<and> (\<exists>s' k. rvv_loop ex_target2 ex_a ex_b ex_y 3 2 0 0 ex_state = Some (Inr (s', k))
    \<and> k \<le> nat (sint (3 :: c_int))
    \<and> writes s' = writes ex_state @ map (\<lambda>j. (blk ex_y, off ex_y + j)) [0..<nat (sint (3 :: c_int))]
    \<and> (\<forall>j < nat (sint (3 :: c_int)). heap s' (blk ex_y) ! (off ex_y + j)
          = axpy_q15 (heap ex_state (blk ex_a) ! (off ex_a + j)) 2 (heap ex_state (blk ex_b) ! (off ex_b + j)))
    \<and> (\<forall>i. unat i < nat (sint (3 :: c_int)) \<longrightarrow>
          unat i < unat (i + vsetvl_e16m1 ex_target2 (scast (3 :: c_int) - i))
          \<and> unat (i + vsetvl_e16m1 ex_target2 (scast (3 :: c_int) - i)) \<le> nat (sint (3 :: c_int))))"
proof -
  have h: "vsetvl_ok ex_target2 (nat (sint (3 :: c_int)))" using ex_vsetvl2_ok by simp
  show ?thesis
    using ex_call_ok h rvv_loop_completes [OF ex_call_ok h, of 2] by (intro conjI)
qed



text \<open>
  C9. For arrays \<open>ref\<close> and \<open>test\<close> of at least \<open>n\<close> elements, \<open>verify_equal\<close> returns
  without a fault; the \<open>md\<close> it stores is the maximum over \<open>i < n\<close> of
  \<open>|ref[i] - test[i]|\<close> (0 when there is no such index); the \<open>ok\<close> it returns is 1 or 0,
  and it is 1 exactly when \<open>ref[i] = test[i]\<close> for every \<open>i < n\<close>, that is when every
  difference is zero.
\<close>

theorem verify_equal_correct:
  assumes "in_bounds s ref (nat (sint n))" "in_bounds s test (nat (sint n))"
  shows "\<exists>ok md. verify_equal s ref test n = Inr (ok, md)
    \<and> sint md = Max (insert 0 ((\<lambda>i. \<bar>sint (heap s (blk ref) ! (off ref + i))
                                      - sint (heap s (blk test) ! (off test + i))\<bar>) ` {..<nat (sint n)}))
    \<and> (nat (sint n) = 0 \<longrightarrow> md = 0)
    \<and> (ok = 1 \<or> ok = 0)
    \<and> (ok = 1 \<longleftrightarrow>
          (\<forall>i < nat (sint n). heap s (blk ref) ! (off ref + i) = heap s (blk test) ! (off test + i)))
    \<and> (ok = 1 \<longleftrightarrow>
          (\<forall>i < nat (sint n). \<bar>sint (heap s (blk ref) ! (off ref + i))
                                  - sint (heap s (blk test) ! (off test + i))\<bar> = 0))"
proof -
  let ?N = "nat (sint n)"
  let ?ok = "if all_equal s ref test ?N then 1 else 0 :: c_int"
  let ?md = "word_of_int (max_abs_diff s ref test ?N) :: int32_t"
  have res: "verify_equal s ref test n = Inr (?ok, ?md)"
    using verify_equal_post [OF assms] by (simp add: verify_post_def)
  have "sint ?md = max_abs_diff s ref test ?N"
    using max_abs_diff_range [of s ref test ?N] by (intro sint_small) auto
  also have "\<dots> = Max (insert 0 ((\<lambda>i. \<bar>sint (heap s (blk ref) ! (off ref + i))
                                      - sint (heap s (blk test) ! (off test + i))\<bar>) ` {..<?N}))"
    by (simp add: max_abs_diff_def abs_diff_def [abs_def])
  finally have m: "sint ?md = Max (insert 0 ((\<lambda>i. \<bar>sint (heap s (blk ref) ! (off ref + i))
                                      - sint (heap s (blk test) ! (off test + i))\<bar>) ` {..<?N}))" .
  have z: "?N = 0 \<longrightarrow> ?md = 0" by (auto simp: max_abs_diff_0)
  have b: "?ok = 1 \<or> ?ok = 0" by simp
  have e: "?ok = 1 \<longleftrightarrow>
          (\<forall>i < ?N. heap s (blk ref) ! (off ref + i) = heap s (blk test) ! (off test + i))"
    by (simp add: all_equal_def)
  have "(heap s (blk ref) ! (off ref + i) = heap s (blk test) ! (off test + i))
      \<longleftrightarrow> \<bar>sint (heap s (blk ref) ! (off ref + i)) - sint (heap s (blk test) ! (off test + i))\<bar> = 0"
    for i using sint_eq_iff_16 by auto
  then have d: "?ok = 1 \<longleftrightarrow>
          (\<forall>i < ?N. \<bar>sint (heap s (blk ref) ! (off ref + i))
                                  - sint (heap s (blk test) ! (off test + i))\<bar> = 0)"
    using e by simp
  from res m z b e d show ?thesis
    by - (rule exI [of _ ?ok], rule exI [of _ ?md], (intro conjI; assumption))
qed

theorem verify_equal_correct_witness:
  "in_bounds ex_state ex_a (nat (sint (3 :: c_int))) \<and> in_bounds ex_state ex_b (nat (sint (3 :: c_int)))
    \<and> (\<exists>ok md. verify_equal ex_state ex_a ex_b 3 = Inr (ok, md)
    \<and> sint md = Max (insert 0 ((\<lambda>i. \<bar>sint (heap ex_state (blk ex_a) ! (off ex_a + i))
                                      - sint (heap ex_state (blk ex_b) ! (off ex_b + i))\<bar>)
                                ` {..<nat (sint (3 :: c_int))}))
    \<and> (nat (sint (3 :: c_int)) = 0 \<longrightarrow> md = 0)
    \<and> (ok = 1 \<or> ok = 0)
    \<and> (ok = 1 \<longleftrightarrow>
          (\<forall>i < nat (sint (3 :: c_int)).
             heap ex_state (blk ex_a) ! (off ex_a + i) = heap ex_state (blk ex_b) ! (off ex_b + i)))
    \<and> (ok = 1 \<longleftrightarrow>
          (\<forall>i < nat (sint (3 :: c_int)).
             \<bar>sint (heap ex_state (blk ex_a) ! (off ex_a + i))
               - sint (heap ex_state (blk ex_b) ! (off ex_b + i))\<bar> = 0)))"
proof -
  have ha: "in_bounds ex_state ex_a (nat (sint (3 :: c_int)))"
    by (simp add: in_bounds_def ex_state_def ex_a_def)
  have hb: "in_bounds ex_state ex_b (nat (sint (3 :: c_int)))"
    by (simp add: in_bounds_def ex_state_def ex_b_def)
  show ?thesis
    using ha hb verify_equal_correct [OF ha hb] by (intro conjI)
qed

text \<open>
  C10. The two results of \<open>verify_equal\<close> agree: on arrays of at least \<open>n\<close> elements it
  returns \<open>ok = 1\<close> if and only if the \<open>md\<close> it stores is 0. With \<open>n = 0\<close> it returns
  \<open>ok = 1\<close> and \<open>md = 0\<close>, whatever the arrays are.
\<close>

theorem verify_equal_consistent:
  assumes "in_bounds s ref (nat (sint n))" "in_bounds s test (nat (sint n))"
  shows "(\<exists>ok md. verify_equal s ref test n = Inr (ok, md) \<and> (ok = 1 \<longleftrightarrow> md = 0))
    \<and> verify_equal s' ref' test' 0 = Inr (1, 0)"
proof -
  let ?N = "nat (sint n)"
  let ?ok = "if all_equal s ref test ?N then 1 else 0 :: c_int"
  let ?md = "word_of_int (max_abs_diff s ref test ?N) :: int32_t"
  have res: "verify_equal s ref test n = Inr (?ok, ?md)"
    using verify_equal_post [OF assms] by (simp add: verify_post_def)
  have sm: "sint ?md = max_abs_diff s ref test ?N"
    using max_abs_diff_range [of s ref test ?N] by (intro sint_small) auto
  have "?md = 0 \<longleftrightarrow> sint ?md = 0" by (simp only: signed_eq_0_iff)
  also have "\<dots> \<longleftrightarrow> all_equal s ref test ?N" unfolding sm by (rule max_abs_diff_zero_iff)
  finally have "?ok = 1 \<longleftrightarrow> ?md = 0" by simp
  then have "\<exists>ok md. verify_equal s ref test n = Inr (ok, md) \<and> (ok = 1 \<longleftrightarrow> md = 0)"
    using res by blast
  moreover have "verify_equal s' ref' test' 0 = Inr (1, 0)"
    by (simp add: verify_equal_def)
  ultimately show ?thesis by (rule conjI)
qed

theorem verify_equal_consistent_witness:
  "in_bounds ex_state ex_a (nat (sint (3 :: c_int))) \<and> in_bounds ex_state ex_b (nat (sint (3 :: c_int)))
    \<and> (\<exists>ok md. verify_equal ex_state ex_a ex_b 3 = Inr (ok, md) \<and> (ok = 1 \<longleftrightarrow> md = 0))
    \<and> verify_equal ex_state ex_a ex_b 0 = Inr (1, 0)"
proof -
  have ha: "in_bounds ex_state ex_a (nat (sint (3 :: c_int)))"
    by (simp add: in_bounds_def ex_state_def ex_a_def)
  have hb: "in_bounds ex_state ex_b (nat (sint (3 :: c_int)))"
    by (simp add: in_bounds_def ex_state_def ex_b_def)
  show ?thesis
    using ha hb verify_equal_consistent [OF ha hb, of ex_state ex_a ex_b] by blast
qed

end
